theory Spec2Isabelle
  imports Main "HOL-Library.Multiset"
begin

section \<open>Chat2DB client: the column-list editor and the panel toggle\<close>

text \<open>
  A shallow embedding of
  \<^verbatim>\<open>src/chat2db-client/src/blocks/DatabaseTableEditor/ColumnList/index.tsx\<close>
  (the table-column editor) and of the panel toggle component
  (\<^verbatim>\<open>src/unnamed/part_000\<close>). Each React event handler is a function from
  the component state of the render it closes over to the state it sets.
\<close>

subsection \<open>Values and rows\<close>

text \<open>
  A JavaScript value as far as the column fields hold one. Numbers are the
  integers a size or a flag takes.
\<close>

datatype jsval = JNull | JUndefined | JBool bool | JNum int | JStr string

text \<open>\<^verbatim>\<open>value ? 1 : 0\<close>: JavaScript truthiness.\<close>

fun truthy :: "jsval \<Rightarrow> bool" where
  "truthy JNull = False"
| "truthy JUndefined = False"
| "truthy (JBool b) = b"
| "truthy (JNum n) = (n \<noteq> 0)"
| "truthy (JStr s) = (s \<noteq> [])"

text \<open>
  \<^verbatim>\<open>IColumnItem\<close>, with the fields \<^verbatim>\<open>createInitialData\<close> lists. The key is
  always a string: every row the component holds gets it from \<^verbatim>\<open>uuidv4()\<close>.
\<close>

record IColumnItem =
  key :: string
  name :: jsval
  columnSize :: jsval
  columnType :: jsval
  nullable :: jsval
  comment :: jsval
  primaryKey :: jsval
  defaultValue :: jsval
  dataType :: jsval
  autoIncrement :: jsval
  numericPrecision :: jsval
  numericScale :: jsval
  characterMaximumLength :: jsval

text \<open>
  \<^verbatim>\<open>createInitialData\<close> (lines 74-90). The argument is the string the call of
  \<^verbatim>\<open>uuidv4()\<close> returns.
\<close>

definition createInitialData :: "string \<Rightarrow> IColumnItem" where
  "createInitialData uuid =
     \<lparr> key = uuid, name = JNull, columnSize = JNull, columnType = JNull,
       nullable = JNull, comment = JNull, primaryKey = JNull, defaultValue = JNull,
       dataType = JNull, autoIncrement = JNull, numericPrecision = JNull,
       numericScale = JNull, characterMaximumLength = JNull \<rparr>"

subsection \<open>Component state\<close>

text \<open>The three \<^verbatim>\<open>useState\<close> cells of \<^verbatim>\<open>ColumnList\<close> (lines 94-97).\<close>

record column_list_state =
  dataSource :: "IColumnItem list"
  editingKey :: string
  databaseFieldTypeList :: "string list"

definition initial_state :: "string \<Rightarrow> column_list_state" where
  "initial_state uuid =
     \<lparr> dataSource = [createInitialData uuid], editingKey = [],
       databaseFieldTypeList = [] \<rparr>"

definition isEditing :: "column_list_state \<Rightarrow> IColumnItem \<Rightarrow> bool" where
  "isEditing s record = (key record = editingKey s)"

text \<open>
  \<^verbatim>\<open>edit\<close> (lines 101-104). \<^verbatim>\<open>form.setFieldsValue\<close> writes to the form
  instance of the widget library, which is no part of the component state.
\<close>

definition edit :: "IColumnItem \<Rightarrow> column_list_state \<Rightarrow> column_list_state" where
  "edit record s = s\<lparr>editingKey := key record\<rparr>"

subsection \<open>Reload from the table details\<close>

record table_details =
  columnList :: "IColumnItem list option"

text \<open>
  \<^verbatim>\<open>columnList.map(t => ({...t, key: uuidv4()}))\<close>: \<open>uuids i\<close> is the string
  \<^verbatim>\<open>uuidv4()\<close> returns in the callback for the element at index \<open>i\<close>.
\<close>

fun tag_from :: "(nat \<Rightarrow> string) \<Rightarrow> nat \<Rightarrow> IColumnItem list \<Rightarrow> IColumnItem list" where
  "tag_from uuids i [] = []"
| "tag_from uuids i (t # ts) = t\<lparr>key := uuids i\<rparr> # tag_from uuids (Suc i) ts"

text \<open>
  The effect on \<^verbatim>\<open>tableDetails\<close> (lines 106-116). A missing column list
  makes \<^verbatim>\<open>?.map\<close> undefined, and \<^verbatim>\<open>|| []\<close> the empty list; a mapped array,
  also an empty one, is truthy.
\<close>

definition onTableDetails ::
  "(nat \<Rightarrow> string) \<Rightarrow> table_details option \<Rightarrow> column_list_state \<Rightarrow> column_list_state" where
  "onTableDetails uuids tableDetails s =
     (case tableDetails of
        None \<Rightarrow> s
      | Some td \<Rightarrow>
          (let list = (case columnList td of
                         None \<Rightarrow> []
                       | Some cols \<Rightarrow> tag_from uuids 0 cols)
           in s\<lparr>dataSource := list\<rparr>))"

subsection \<open>The field-type list\<close>

record field_type =
  typeName :: string

text \<open>
  The promise of \<^verbatim>\<open>sqlService.getDatabaseFieldTypeList\<close> (lines 118-126)
  settles once: rejected with a reason, or resolved with the list.
\<close>

datatype ('e, 'a) settled = Rejected 'e | Resolved 'a

text \<open>
  The state the effect sets. Only \<^verbatim>\<open>then\<close> has a callback, and it is the
  one place that calls \<^verbatim>\<open>setDatabaseFieldTypeList\<close>.
\<close>

definition onFieldTypeListSettled ::
  "('e, field_type list) settled \<Rightarrow> column_list_state \<Rightarrow> column_list_state" where
  "onFieldTypeListSettled p s =
     (case p of
        Rejected e \<Rightarrow> s
      | Resolved res \<Rightarrow> s\<lparr>databaseFieldTypeList := map typeName res\<rparr>)"



subsection \<open>Array primitives\<close>

text \<open>\<^verbatim>\<open>Array.prototype.findIndex\<close>: the first index that satisfies, or -1.\<close>

fun findIndex :: "('a \<Rightarrow> bool) \<Rightarrow> 'a list \<Rightarrow> int" where
  "findIndex P [] = - 1"
| "findIndex P (x # xs) =
     (if P x then 0
      else (let r = findIndex P xs in if r < 0 then - 1 else r + 1))"

text \<open>
  \<^verbatim>\<open>Array.prototype.splice\<close>: the start index, relative to the end when
  negative, clamped to the array.
\<close>

definition splice_start :: "int \<Rightarrow> nat \<Rightarrow> nat" where
  "splice_start start len =
     (if start < 0 then nat (max (int len + start) 0) else nat (min start (int len)))"

text \<open>
  \<^verbatim>\<open>xs.splice(start, 1)[0]\<close>: the element removed (\<open>None\<close> for
  \<^verbatim>\<open>undefined\<close>, when the start is the end of the array) and the array left.
\<close>

definition splice_out :: "'a list \<Rightarrow> int \<Rightarrow> 'a option \<times> 'a list" where
  "splice_out xs start =
     (let a = splice_start start (length xs)
      in if a < length xs then (Some (xs ! a), take a xs @ drop (Suc a) xs)
         else (None, xs))"

text \<open>\<^verbatim>\<open>xs.splice(start, 0, v)\<close>.\<close>

definition splice_in :: "'a list \<Rightarrow> int \<Rightarrow> 'a \<Rightarrow> 'a list" where
  "splice_in xs start v =
     (let a = splice_start start (length xs) in take a xs @ v # drop a xs)"

text \<open>
  Modelled from the spec: \<^verbatim>\<open>arrayMove\<close> is imported from the package
  \<^verbatim>\<open>@dnd-kit/sortable\<close> and its body is not among the sources. The spec has
  it move "exactly one row to the dropped-at position, preserving all other
  rows' relative order"; the definition is the package's: copy the array,
  compute the target (\<^verbatim>\<open>to < 0 ? length + to : to\<close>, on the full length),
  splice the element at \<^verbatim>\<open>from\<close> out and splice it in at the target. The
  result is \<open>None\<close> when nothing was spliced out, where the JavaScript array
  would hold \<^verbatim>\<open>undefined\<close> in place of a row.
\<close>

definition arrayMove :: "'a list \<Rightarrow> int \<Rightarrow> int \<Rightarrow> 'a list option" where
  "arrayMove array from to =
     (let target = (if to < 0 then int (length array) + to else to)
      in case splice_out array from of
           (None, _) \<Rightarrow> None
         | (Some v, rest) \<Rightarrow> Some (splice_in rest target v))"

subsection \<open>Drag and drop\<close>

text \<open>
  \<^verbatim>\<open>DragEndEvent\<close>: the identifier of the dragged row, and the drop target,
  which is null when the row is dropped on nothing.
\<close>

record drag_end_event =
  active :: string
  over :: "string option"

text \<open>
  \<^verbatim>\<open>onDragEnd\<close> (lines 257-265). With no target \<^verbatim>\<open>over?.id\<close> is
  undefined, which differs from every identifier and is no row's key.
\<close>

definition onDragEnd :: "drag_end_event \<Rightarrow> column_list_state \<Rightarrow> column_list_state option" where
  "onDragEnd ev s =
     (if Some (active ev) \<noteq> over ev then
        (let previous = dataSource s;
             activeIndex = findIndex (\<lambda>i. key i = active ev) previous;
             overIndex = findIndex (\<lambda>i. Some (key i) = over ev) previous
         in map_option (\<lambda>l. s\<lparr>dataSource := l\<rparr>) (arrayMove previous activeIndex overIndex))
      else Some s)"

subsection \<open>Field edits\<close>

text \<open>The names of the form items the table renders (lines 141-244).\<close>

datatype field_name = FName | FColumnSize | FColumnType | FNullable | FComment

fun set_field :: "field_name \<Rightarrow> jsval \<Rightarrow> IColumnItem \<Rightarrow> IColumnItem" where
  "set_field FName v item = item\<lparr>name := v\<rparr>"
| "set_field FColumnSize v item = item\<lparr>columnSize := v\<rparr>"
| "set_field FColumnType v item = item\<lparr>columnType := v\<rparr>"
| "set_field FNullable v item = item\<lparr>nullable := v\<rparr>"
| "set_field FComment v item = item\<lparr>comment := v\<rparr>"

text \<open>\<^verbatim>\<open>handelFieldsChange\<close> (lines 267-283).\<close>

definition handelFieldsChange ::
  "field_name \<Rightarrow> jsval \<Rightarrow> column_list_state \<Rightarrow> column_list_state" where
  "handelFieldsChange nm value0 s =
     (let v = (if nm = FNullable then (if truthy value0 then JNum 1 else JNum 0) else value0);
          newData = map (\<lambda>item. if key item = editingKey s then set_field nm v item else item)
                      (dataSource s)
      in s\<lparr>dataSource := newData\<rparr>)"

subsection \<open>Add, delete, move\<close>

text \<open>\<^verbatim>\<open>addData\<close> (lines 285-289).\<close>

definition addData :: "string \<Rightarrow> column_list_state \<Rightarrow> column_list_state" where
  "addData uuid s =
     (let newData = createInitialData uuid
      in edit newData (s\<lparr>dataSource := dataSource s @ [newData]\<rparr>))"

text \<open>\<^verbatim>\<open>deleteData\<close> (lines 291-293).\<close>

definition deleteData :: "column_list_state \<Rightarrow> column_list_state" where
  "deleteData s = s\<lparr>dataSource := filter (\<lambda>i. key i \<noteq> editingKey s) (dataSource s)\<rparr>"

datatype move_action = Up | Down

text \<open>
  \<^verbatim>\<open>moveData\<close> (lines 295-317). Past the guards both indices written are
  inside the array.
\<close>

definition moveData :: "move_action \<Rightarrow> column_list_state \<Rightarrow> column_list_state" where
  "moveData action s =
     (let ds = dataSource s;
          index = findIndex (\<lambda>i. key i = editingKey s) ds
      in if index = - 1 then s
         else (case action of
                 Up \<Rightarrow>
                   if index = 0 then s
                   else s\<lparr>dataSource :=
                            ds[nat index := ds ! nat (index - 1),
                               nat (index - 1) := ds ! nat index]\<rparr>
               | Down \<Rightarrow>
                   if index = int (length ds) - 1 then s
                   else s\<lparr>dataSource :=
                            ds[nat index := ds ! nat (index + 1),
                               nat (index + 1) := ds ! nat index]\<rparr>))"

text \<open>\<^verbatim>\<open>getColumnListInfo\<close> (lines 319-321).\<close>

definition getColumnListInfo :: "column_list_state \<Rightarrow> IColumnItem list" where
  "getColumnListInfo s = dataSource s"

subsection \<open>The panel toggle\<close>

record layout =
  panelLeft :: bool
  panelRight :: bool

text \<open>
  Modelled from the spec: \<^verbatim>\<open>togglePanelLeft\<close> and \<^verbatim>\<open>togglePanelRight\<close> are
  actions of the workspace store (\<^verbatim>\<open>@/store/workspace\<close>), which is not among
  the sources. The spec: "clicking one flips a boolean flag in shared
  application state"; "toggling is idempotent-free (flips current value), no
  validation".
\<close>

definition togglePanelLeft :: "layout \<Rightarrow> layout" where
  "togglePanelLeft l = l\<lparr>panelLeft := \<not> panelLeft l\<rparr>"

definition togglePanelRight :: "layout \<Rightarrow> layout" where
  "togglePanelRight l = l\<lparr>panelRight := \<not> panelRight l\<rparr>"

text \<open>
  The component (part_000, lines 27-35) binds the click on the first icon to
  \<^verbatim>\<open>togglePanelLeft\<close> and on the second to \<^verbatim>\<open>togglePanelRight\<close>.
\<close>

datatype panel_icon = LeftIcon | RightIcon

fun onClick :: "panel_icon \<Rightarrow> layout \<Rightarrow> layout" where
  "onClick LeftIcon l = togglePanelLeft l"
| "onClick RightIcon l = togglePanelRight l"

subsection \<open>A sample state\<close>

text \<open>Three blank rows with the keys a, b and c, the middle one in edit mode.\<close>

abbreviation three_rows :: column_list_state where
  "three_rows \<equiv>
     \<lparr> dataSource = [createInitialData ''a'', createInitialData ''b'', createInitialData ''c''],
       editingKey = ''b'', databaseFieldTypeList = [] \<rparr>"

section \<open>Properties\<close>

subsection \<open>Facts about \<open>findIndex\<close>\<close>

lemma findIndex_lower: "- 1 \<le> findIndex P xs"
  by (induction xs) (auto simp: Let_def)

lemma findIndex_upper: "findIndex P xs < int (length xs)"
  by (induction xs) (auto simp: Let_def)

lemma findIndex_neg: "(findIndex P xs < 0) = (findIndex P xs = - 1)"
  using findIndex_lower [of P xs] by arith

lemma findIndex_none: "(findIndex P xs = - 1) = (\<forall>x \<in> set xs. \<not> P x)"
proof (induction xs)
  case Nil
  then show ?case by simp
next
  case (Cons x xs)
  have "findIndex P xs + 1 \<noteq> - 1" using findIndex_lower [of P xs] by arith
  with Cons show ?case by (simp add: Let_def findIndex_neg)
qed

lemma findIndex_first:
  "i < length xs \<Longrightarrow> P (xs ! i) \<Longrightarrow> (\<And>j. j < i \<Longrightarrow> \<not> P (xs ! j)) \<Longrightarrow> findIndex P xs = int i"
proof (induction xs arbitrary: i)
  case Nil
  then show ?case by simp
next
  case (Cons x xs)
  show ?case
  proof (cases i)
    case 0
    with Cons.prems show ?thesis by simp
  next
    case (Suc k)
    have nx: "\<not> P x" using Cons.prems(3) [of 0] Suc by simp
    have "findIndex P xs = int k"
    proof (rule Cons.IH)
      show "k < length xs" using Cons.prems(1) Suc by simp
      show "P (xs ! k)" using Cons.prems(2) Suc by simp
      fix j assume "j < k"
      then show "\<not> P (xs ! j)" using Cons.prems(3) [of "Suc j"] Suc by simp
    qed
    with nx Suc show ?thesis by (simp add: Let_def)
  qed
qed

lemma findIndex_found:
  assumes "\<exists>x \<in> set xs. P x"
  shows "0 \<le> findIndex P xs \<and> nat (findIndex P xs) < length xs \<and> P (xs ! nat (findIndex P xs))
         \<and> (\<forall>j < nat (findIndex P xs). \<not> P (xs ! j))"
  using assms
proof (induction xs)
  case Nil
  then show ?case by simp
next
  case (Cons x xs)
  show ?case
  proof (cases "P x")
    case True
    then show ?thesis by simp
  next
    case False
    with Cons.prems have ex: "\<exists>x \<in> set xs. P x" by simp
    note ih = Cons.IH [OF ex]
    from ih have nn: "\<not> findIndex P xs < 0" by simp
    have eq: "findIndex P (x # xs) = findIndex P xs + 1"
      using False nn by (simp add: Let_def)
    have n: "nat (findIndex P xs + 1) = Suc (nat (findIndex P xs))"
      using ih by arith
    show ?thesis
      unfolding eq n using ih False
      by (auto simp: less_Suc_eq_0_disj)
  qed
qed

subsection \<open>Facts about \<open>splice\<close> and \<open>arrayMove\<close>\<close>

lemma splice_start_in: "0 \<le> i \<Longrightarrow> i \<le> int n \<Longrightarrow> splice_start i n = nat i"
  by (simp add: splice_start_def)

lemma splice_out_in:
  "i < length xs \<Longrightarrow> splice_out xs (int i) = (Some (xs ! i), take i xs @ drop (Suc i) xs)"
  by (simp add: splice_out_def splice_start_def Let_def)

lemma splice_in_in:
  "j \<le> length xs \<Longrightarrow> splice_in xs (int j) v = take j xs @ v # drop j xs"
  by (simp add: splice_in_def splice_start_def Let_def)

lemma arrayMove_in:
  assumes "i < length xs" "j < length xs"
  shows "arrayMove xs (int i) (int j) =
           Some (take j (take i xs @ drop (Suc i) xs) @ xs ! i # drop j (take i xs @ drop (Suc i) xs))"
proof -
  have "j \<le> length (take i xs @ drop (Suc i) xs)" using assms by simp
  then show ?thesis
    using assms by (simp add: arrayMove_def splice_out_in splice_in_in)
qed

lemma splice_out_mset:
  "splice_out xs start = (Some v, rest) \<Longrightarrow> mset xs = add_mset v (mset rest)"
proof -
  assume a: "splice_out xs start = (Some v, rest)"
  define a where "a = splice_start start (length xs)"
  from a have lt: "a < length xs" and v: "v = xs ! a" and r: "rest = take a xs @ drop (Suc a) xs"
    by (auto simp: splice_out_def Let_def a_def split: if_splits)
  have "xs = take a xs @ xs ! a # drop (Suc a) xs"
    using lt by (simp add: id_take_nth_drop)
  then have "mset xs = mset (take a xs @ xs ! a # drop (Suc a) xs)" by simp
  then show ?thesis by (simp add: v r)
qed

lemma splice_in_mset: "mset (splice_in xs start v) = add_mset v (mset xs)"
proof -
  have "mset (take a xs) + mset (drop a xs) = mset xs" for a
    by (metis append_take_drop_id mset_append)
  then show ?thesis by (simp add: splice_in_def Let_def)
qed

lemma arrayMove_mset: "arrayMove xs from to = Some ys \<Longrightarrow> mset ys = mset xs"
  by (auto simp: arrayMove_def Let_def splice_in_mset splice_out_mset split: prod.splits option.splits)

lemma arrayMove_None: "(arrayMove xs from to = None) = (length xs \<le> splice_start from (length xs))"
  by (auto simp: arrayMove_def Let_def splice_out_def split: prod.splits option.splits if_splits)

lemma arrayMove_findIndex_None:
  "(arrayMove xs (findIndex P xs) to = None) = (xs = [])"
proof (cases "findIndex P xs = - 1")
  case True
  then show ?thesis by (cases xs) (auto simp: arrayMove_None splice_start_def)
next
  case False
  then have "\<exists>x \<in> set xs. P x" by (simp add: findIndex_none)
  from findIndex_found [OF this] show ?thesis
    by (auto simp: arrayMove_None splice_start_def)
qed

subsection \<open>Where the rows of a moved list come from\<close>

lemma nth_removed:
  assumes "i < length xs" "m < length xs - 1"
  shows "(take i xs @ drop (Suc i) xs) ! m = (if m < i then xs ! m else xs ! Suc m)"
  using assms by (auto simp: nth_append)

lemma nth_inserted:
  assumes "j \<le> length rm" "k \<le> length rm"
  shows "(take j rm @ v # drop j rm) ! k =
           (if k < j then rm ! k else if k = j then v else rm ! (k - 1))"
proof -
  have lt: "length (take j rm) = j" using assms by simp
  consider "k < j" | "k = j" | "j < k" by arith
  then show ?thesis
  proof cases
    case 1
    then show ?thesis using lt by (simp add: nth_append)
  next
    case 2
    then show ?thesis using lt by (simp add: nth_append)
  next
    case 3
    then obtain m where m: "k = Suc (j + m)" using less_iff_Suc_add by auto
    have "(take j rm @ v # drop j rm) ! k = (v # drop j rm) ! (k - j)"
      using 3 lt by (simp add: nth_append)
    also have "\<dots> = drop j rm ! m" using m by simp
    also have "\<dots> = rm ! (j + m)" using assms(1) by simp
    finally show ?thesis using 3 m by simp
  qed
qed

lemma nth_moved:
  assumes "i < length xs" "j < length xs" "k < length xs"
  shows "(take j (take i xs @ drop (Suc i) xs) @ xs ! i # drop j (take i xs @ drop (Suc i) xs)) ! k =
           (if k = j then xs ! i
            else if i \<le> k \<and> k < j then xs ! Suc k
            else if j < k \<and> k \<le> i then xs ! (k - 1)
            else xs ! k)"
proof -
  define rm where "rm = take i xs @ drop (Suc i) xs"
  have len: "length rm = length xs - 1" using assms by (simp add: rm_def)
  have rm: "rm ! m = (if m < i then xs ! m else xs ! Suc m)" if "m < length xs - 1" for m
    unfolding rm_def using assms(1) that by (rule nth_removed)
  have "(take j rm @ xs ! i # drop j rm) ! k =
          (if k < j then rm ! k else if k = j then xs ! i else rm ! (k - 1))"
    using assms len by (intro nth_inserted) simp_all
  also have "\<dots> = (if k = j then xs ! i
            else if i \<le> k \<and> k < j then xs ! Suc k
            else if j < k \<and> k \<le> i then xs ! (k - 1)
            else xs ! k)"
  proof (cases "k < j")
    case True
    then have "k < length xs - 1" using assms by simp
    from rm [OF this] True show ?thesis by auto
  next
    case False
    show ?thesis
    proof (cases "k = j")
      case True
      then show ?thesis by simp
    next
      case False
      with \<open>\<not> k < j\<close> have jk: "j < k" by simp
      then have "k - 1 < length xs - 1" using assms by simp
      from rm [OF this] jk show ?thesis by auto
    qed
  qed
  finally show ?thesis unfolding rm_def .
qed

lemma remove_moved:
  assumes "j \<le> length rm"
  shows "take j (take j rm @ v # drop j rm) @ drop (Suc j) (take j rm @ v # drop j rm) = rm"
  using assms by simp

lemma onDragEnd_rows:
  assumes i: "i < length (dataSource s)" "key (dataSource s ! i) = active ev"
             "\<forall>k<i. key (dataSource s ! k) \<noteq> active ev"
      and j: "j < length (dataSource s)" "over ev = Some (key (dataSource s ! j))"
             "\<forall>k<j. key (dataSource s ! k) \<noteq> key (dataSource s ! j)"
      and ne: "active ev \<noteq> key (dataSource s ! j)"
  shows "onDragEnd ev s =
           Some (s\<lparr>dataSource :=
                    take j (take i (dataSource s) @ drop (Suc i) (dataSource s)) @
                    dataSource s ! i #
                    drop j (take i (dataSource s) @ drop (Suc i) (dataSource s))\<rparr>)"
proof -
  have a: "findIndex (\<lambda>r. key r = active ev) (dataSource s) = int i"
    using i by (intro findIndex_first) auto
  have b: "findIndex (\<lambda>r. Some (key r) = over ev) (dataSource s) = int j"
    using j by (intro findIndex_first) auto
  show ?thesis
    unfolding onDragEnd_def Let_def a b arrayMove_in [OF i(1) j(1)]
    using ne j(2) by simp
qed

subsection \<open>Keys after a reload\<close>

lemma length_tag_from: "length (tag_from uuids i ts) = length ts"
  by (induction ts arbitrary: i) simp_all

lemma key_tag_from: "map key (tag_from uuids i ts) = map uuids [i..<i + length ts]"
proof (induction ts arbitrary: i)
  case Nil
  then show ?case by simp
next
  case (Cons t ts)
  have "[i..<i + length (t # ts)] = i # [Suc i..<Suc i + length ts]"
    using upt_rec [of i "i + Suc (length ts)"] by simp
  with Cons show ?case by simp
qed

lemma fields_tag_from:
  "map (\<lambda>r. r\<lparr>key := k0\<rparr>) (tag_from uuids i ts) = map (\<lambda>t. t\<lparr>key := k0\<rparr>) ts"
  by (induction ts arbitrary: i) simp_all

lemma onTableDetails_keys:
  "map key (dataSource (onTableDetails uuids tableDetails s)) =
     (case tableDetails of
        None \<Rightarrow> map key (dataSource s)
      | Some td \<Rightarrow> (case columnList td of None \<Rightarrow> [] | Some cols \<Rightarrow> map uuids [0..<length cols]))"
  using key_tag_from [of uuids 0]
  by (simp add: onTableDetails_def split: option.splits)

subsection \<open>Operations that permute the rows or keep their keys\<close>

lemma distinct_keys_mset:
  assumes "mset ys = mset xs" "distinct (map key xs)"
  shows "distinct (map key ys)"
proof -
  have "mset (map key ys) = mset (map key xs)" using assms(1) by simp
  then show ?thesis using assms(2) mset_eq_imp_distinct_iff by blast
qed

lemma moveData_mset: "mset (dataSource (moveData action s)) = mset (dataSource s)"
proof (cases "findIndex (\<lambda>i. key i = editingKey s) (dataSource s) = - 1")
  case True
  then show ?thesis by (simp add: moveData_def)
next
  case False
  define ds where "ds = dataSource s"
  define n where "n = nat (findIndex (\<lambda>i. key i = editingKey s) ds)"
  from False have "\<exists>x \<in> set ds. key x = editingKey s"
    by (simp add: findIndex_none ds_def)
  from findIndex_found [OF this]
  have idx: "findIndex (\<lambda>i. key i = editingKey s) ds = int n" and nl: "n < length ds"
    by (simp_all add: n_def)
  show ?thesis
  proof (cases action)
    case Up
    show ?thesis
    proof (cases "n = 0")
      case True
      then show ?thesis using idx Up by (simp add: moveData_def ds_def [symmetric])
    next
      case False
      then have a: "nat (int n - 1) = n - 1" by simp
      have "dataSource (moveData Up s) = ds[n := ds ! (n - 1), n - 1 := ds ! n]"
        using idx False a by (simp add: moveData_def ds_def [symmetric] Let_def)
      moreover have "mset (ds[n := ds ! (n - 1), n - 1 := ds ! n]) = mset ds"
        using nl by (intro mset_swap) simp_all
      ultimately show ?thesis using Up by (simp add: ds_def)
    qed
  next
    case Down
    show ?thesis
    proof (cases "int n = int (length ds) - 1")
      case True
      then show ?thesis using idx Down by (simp add: moveData_def ds_def [symmetric] Let_def)
    next
      case False
      then have lt: "n + 1 < length ds" using nl by arith
      have a: "nat (int n + 1) = n + 1" by simp
      have "dataSource (moveData Down s) = ds[n := ds ! (n + 1), n + 1 := ds ! n]"
        using idx False a by (simp add: moveData_def ds_def [symmetric] Let_def)
      moreover have "mset (ds[n := ds ! (n + 1), n + 1 := ds ! n]) = mset ds"
        using nl lt by (intro mset_swap) simp_all
      ultimately show ?thesis using Down by (simp add: ds_def)
    qed
  qed
qed

lemma onDragEnd_mset: "onDragEnd ev s = Some s' \<Longrightarrow> mset (dataSource s') = mset (dataSource s)"
  by (auto simp: onDragEnd_def Let_def dest: arrayMove_mset split: if_splits)

lemma onDragEnd_None: "(onDragEnd ev s = None) = (Some (active ev) \<noteq> over ev \<and> dataSource s = [])"
  by (simp add: onDragEnd_def Let_def arrayMove_findIndex_None)

lemma key_set_field: "key (set_field nm v item) = key item"
  by (cases nm) simp_all

lemma handelFieldsChange_keys:
  "map key (dataSource (handelFieldsChange nm v s)) = map key (dataSource s)"
  by (simp add: handelFieldsChange_def Let_def key_set_field)

subsection \<open>Drag and drop\<close>

text \<open>
  C1: when the dragged row's identifier finds the row at index \<open>i\<close> and the
  drop target's identifier finds a different row, at index \<open>j\<close>, the drag
  yields a list of the same length that has the dragged row at index \<open>j\<close>,
  and taking that row out of the new list leaves what taking it out of the old
  list leaves: the other rows, in their old order.
\<close>

theorem drag_moves_row_to_target:
  assumes "i < length (dataSource s)" "key (dataSource s ! i) = active ev"
          "\<forall>k<i. key (dataSource s ! k) \<noteq> active ev"
      and "j < length (dataSource s)" "over ev = Some (key (dataSource s ! j))"
          "\<forall>k<j. key (dataSource s ! k) \<noteq> key (dataSource s ! j)"
      and "active ev \<noteq> key (dataSource s ! j)"
  shows "\<exists>ds'. onDragEnd ev s = Some (s\<lparr>dataSource := ds'\<rparr>)
           \<and> length ds' = length (dataSource s)
           \<and> ds' ! j = dataSource s ! i
           \<and> take j ds' @ drop (Suc j) ds' = take i (dataSource s) @ drop (Suc i) (dataSource s)"
proof -
  define rm where "rm = take i (dataSource s) @ drop (Suc i) (dataSource s)"
  define ds' where "ds' = take j rm @ dataSource s ! i # drop j rm"
  have jl: "j \<le> length rm" using assms(1,4) by (simp add: rm_def)
  have "onDragEnd ev s = Some (s\<lparr>dataSource := ds'\<rparr>)"
    unfolding ds'_def rm_def using assms by (rule onDragEnd_rows)
  moreover have "length ds' = length (dataSource s)"
    using assms(1,4) by (simp add: ds'_def rm_def)
  moreover have "ds' ! j = dataSource s ! i"
    using jl by (simp add: ds'_def nth_append)
  moreover have "take j ds' @ drop (Suc j) ds' = rm"
    unfolding ds'_def using jl by (rule remove_moved)
  ultimately show ?thesis unfolding rm_def by blast
qed

theorem drag_moves_row_to_target_witness:
  "\<exists>ds'. onDragEnd \<lparr>active = ''a'', over = Some ''c''\<rparr> three_rows = Some (three_rows\<lparr>dataSource := ds'\<rparr>)
      \<and> length ds' = 3
      \<and> ds' ! 2 = createInitialData ''a''
      \<and> take 2 ds' @ drop 3 ds' = [createInitialData ''b'', createInitialData ''c'']"
proof -
  let ?ev = "\<lparr>active = ''a'', over = Some ''c''\<rparr>"
  have two: "(k < 2) = (k = 0 \<or> k = Suc 0)" for k :: nat by arith
  have h1: "0 < length (dataSource three_rows)" by simp
  have h2: "key (dataSource three_rows ! 0) = active ?ev" by (simp add: createInitialData_def)
  have h3: "\<forall>k<0. key (dataSource three_rows ! k) \<noteq> active ?ev" by simp
  have h4: "2 < length (dataSource three_rows)" by simp
  have h5: "over ?ev = Some (key (dataSource three_rows ! 2))" by (simp add: createInitialData_def)
  have h6: "\<forall>k<2. key (dataSource three_rows ! k) \<noteq> key (dataSource three_rows ! 2)"
    by (auto simp: two createInitialData_def)
  have h7: "active ?ev \<noteq> key (dataSource three_rows ! 2)" by (simp add: createInitialData_def)
  from drag_moves_row_to_target [OF h1 h2 h3 h4 h5 h6 h7]
  show ?thesis by (simp add: numeral_3_eq_3)
qed

text \<open>
  C2 as stated reads the move as a swap of the two rows. Dragging the first of
  three rows onto the third puts the second row first and the third second:
  the target row does not take the dragged row's place, and the row between
  them does not stay.
\<close>

theorem drag_is_not_a_swap:
  "map_option (\<lambda>s'. map key (dataSource s'))
     (onDragEnd \<lparr>active = ''a'', over = Some ''c''\<rparr> three_rows) = Some [''b'', ''c'', ''a'']
   \<and> map key (dataSource three_rows) = [''a'', ''b'', ''c'']
   \<and> map_option (\<lambda>s'. key (dataSource s' ! 0))
        (onDragEnd \<lparr>active = ''a'', over = Some ''c''\<rparr> three_rows)
       \<noteq> Some (key (dataSource three_rows ! 2))
   \<and> map_option (\<lambda>s'. key (dataSource s' ! 1))
        (onDragEnd \<lparr>active = ''a'', over = Some ''c''\<rparr> three_rows)
       \<noteq> Some (key (dataSource three_rows ! 1))"
  by (simp add: onDragEnd_def arrayMove_def splice_out_def splice_in_def splice_start_def
      createInitialData_def Let_def)

text \<open>
  C2, amended: the dragged row takes the target's position, every row from
  the one after the dragged row up to the target (or from the target up to the
  one before the dragged row) shifts by one position towards the place the
  dragged row left, and all other rows stay. The target row lands on the
  dragged row's former position when the two are neighbours.
\<close>

theorem drag_shifts_rows_between:
  assumes "i < length (dataSource s)" "key (dataSource s ! i) = active ev"
          "\<forall>k<i. key (dataSource s ! k) \<noteq> active ev"
      and "j < length (dataSource s)" "over ev = Some (key (dataSource s ! j))"
          "\<forall>k<j. key (dataSource s ! k) \<noteq> key (dataSource s ! j)"
      and "active ev \<noteq> key (dataSource s ! j)"
  shows "\<exists>ds'. onDragEnd ev s = Some (s\<lparr>dataSource := ds'\<rparr>)
           \<and> length ds' = length (dataSource s)
           \<and> ds' ! j = dataSource s ! i
           \<and> (\<forall>k < length (dataSource s).
                 ds' ! k = (if k = j then dataSource s ! i
                            else if i \<le> k \<and> k < j then dataSource s ! Suc k
                            else if j < k \<and> k \<le> i then dataSource s ! (k - 1)
                            else dataSource s ! k))
           \<and> ((i = Suc j \<or> j = Suc i) \<longrightarrow> ds' ! i = dataSource s ! j)"
proof -
  define ds where "ds = dataSource s"
  define ds' where "ds' = take j (take i ds @ drop (Suc i) ds) @ ds ! i # drop j (take i ds @ drop (Suc i) ds)"
  have il: "i < length ds" and jl: "j < length ds" using assms(1,4) by (simp_all add: ds_def)
  have run: "onDragEnd ev s = Some (s\<lparr>dataSource := ds'\<rparr>)"
    unfolding ds'_def ds_def using assms by (rule onDragEnd_rows)
  have len: "length ds' = length ds"
    using il jl by (simp add: ds'_def)
  have pt: "ds' ! k = (if k = j then ds ! i
                       else if i \<le> k \<and> k < j then ds ! Suc k
                       else if j < k \<and> k \<le> i then ds ! (k - 1)
                       else ds ! k)" if "k < length ds" for k
    unfolding ds'_def using il jl that by (rule nth_moved)
  have at_j: "ds' ! j = ds ! i" using pt [OF jl] by simp
  have adj: "ds' ! i = ds ! j" if "i = Suc j \<or> j = Suc i"
    using pt [OF il] that by auto
  from run len at_j pt adj show ?thesis unfolding ds_def by blast
qed

theorem drag_shifts_rows_between_witness:
  "\<exists>ds'. onDragEnd \<lparr>active = ''a'', over = Some ''c''\<rparr> three_rows = Some (three_rows\<lparr>dataSource := ds'\<rparr>)
      \<and> ds' ! 0 = createInitialData ''b''
      \<and> ds' ! 1 = createInitialData ''c''
      \<and> ds' ! 2 = createInitialData ''a''"
proof -
  let ?ev = "\<lparr>active = ''a'', over = Some ''c''\<rparr>"
  have two: "(k < 2) = (k = 0 \<or> k = Suc 0)" for k :: nat by arith
  have three: "(k < 3) = (k = 0 \<or> k = 1 \<or> k = 2)" for k :: nat by arith
  have h1: "0 < length (dataSource three_rows)" by simp
  have h2: "key (dataSource three_rows ! 0) = active ?ev" by (simp add: createInitialData_def)
  have h3: "\<forall>k<0. key (dataSource three_rows ! k) \<noteq> active ?ev" by simp
  have h4: "2 < length (dataSource three_rows)" by simp
  have h5: "over ?ev = Some (key (dataSource three_rows ! 2))" by (simp add: createInitialData_def)
  have h6: "\<forall>k<2. key (dataSource three_rows ! k) \<noteq> key (dataSource three_rows ! 2)"
    by (auto simp: two createInitialData_def)
  have h7: "active ?ev \<noteq> key (dataSource three_rows ! 2)" by (simp add: createInitialData_def)
  from drag_shifts_rows_between [OF h1 h2 h3 h4 h5 h6 h7]
  obtain ds' where r: "onDragEnd ?ev three_rows = Some (three_rows\<lparr>dataSource := ds'\<rparr>)"
    and pt: "\<forall>k < length (dataSource three_rows).
                 ds' ! k = (if k = 2 then dataSource three_rows ! 0
                            else if 0 \<le> k \<and> k < 2 then dataSource three_rows ! Suc k
                            else if 2 < k \<and> k \<le> 0 then dataSource three_rows ! (k - 1)
                            else dataSource three_rows ! k)"
    by blast
  from pt have "ds' ! 0 = createInitialData ''b''" "ds' ! 1 = createInitialData ''c''"
    "ds' ! 2 = createInitialData ''a''"
    by (simp_all add: three)
  with r show ?thesis by blast
qed

subsection \<open>Move up, move down\<close>

text \<open>
  C3: when exactly one row, at index \<open>i\<close>, has the edit key, move-up with
  \<open>i = 0\<close> and move-down with \<open>i\<close> the last index return the state
  unchanged; otherwise move-up (move-down) exchanges the rows at \<open>i\<close> and
  \<open>i - 1\<close> (\<open>i + 1\<close>) and every other index keeps its row.
\<close>

theorem move_swaps_with_neighbour:
  assumes "i < length (dataSource s)" "key (dataSource s ! i) = editingKey s"
      and "\<forall>k < length (dataSource s). key (dataSource s ! k) = editingKey s \<longrightarrow> k = i"
  shows "(i = 0 \<longrightarrow> moveData Up s = s)
       \<and> (i = length (dataSource s) - 1 \<longrightarrow> moveData Down s = s)
       \<and> (0 < i \<longrightarrow>
            length (dataSource (moveData Up s)) = length (dataSource s)
          \<and> dataSource (moveData Up s) ! (i - 1) = dataSource s ! i
          \<and> dataSource (moveData Up s) ! i = dataSource s ! (i - 1)
          \<and> (\<forall>k < length (dataSource s). k \<noteq> i \<and> k \<noteq> i - 1 \<longrightarrow>
                dataSource (moveData Up s) ! k = dataSource s ! k)
          \<and> editingKey (moveData Up s) = editingKey s)
       \<and> (i < length (dataSource s) - 1 \<longrightarrow>
            length (dataSource (moveData Down s)) = length (dataSource s)
          \<and> dataSource (moveData Down s) ! (i + 1) = dataSource s ! i
          \<and> dataSource (moveData Down s) ! i = dataSource s ! (i + 1)
          \<and> (\<forall>k < length (dataSource s). k \<noteq> i \<and> k \<noteq> i + 1 \<longrightarrow>
                dataSource (moveData Down s) ! k = dataSource s ! k)
          \<and> editingKey (moveData Down s) = editingKey s)"
proof -
  define ds where "ds = dataSource s"
  have il: "i < length ds" using assms(1) by (simp add: ds_def)
  have idx: "findIndex (\<lambda>r. key r = editingKey s) ds = int i"
  proof (rule findIndex_first)
    show "i < length ds" by (rule il)
    show "key (ds ! i) = editingKey s" using assms(2) by (simp add: ds_def)
    fix k assume "k < i"
    then have "k < length (dataSource s)" "k \<noteq> i" using assms(1) by simp_all
    with assms(3) show "key (ds ! k) \<noteq> editingKey s" unfolding ds_def by blast
  qed
  have up0: "moveData Up s = s" if "i = 0"
    using that idx by (simp add: moveData_def ds_def)
  have down_last: "moveData Down s = s" if "i = length ds - 1"
    using that idx il by (simp add: moveData_def ds_def Let_def)
  have up: "dataSource (moveData Up s) = ds[i := ds ! (i - 1), i - 1 := ds ! i]"
           "editingKey (moveData Up s) = editingKey s" if "0 < i"
  proof -
    have "nat (int i - 1) = i - 1" by simp
    then show "dataSource (moveData Up s) = ds[i := ds ! (i - 1), i - 1 := ds ! i]"
              "editingKey (moveData Up s) = editingKey s"
      using that idx by (simp_all add: moveData_def ds_def [symmetric] Let_def)
  qed
  have down: "dataSource (moveData Down s) = ds[i := ds ! (i + 1), i + 1 := ds ! i]"
             "editingKey (moveData Down s) = editingKey s" if "i < length ds - 1"
  proof -
    have a: "nat (int i + 1) = i + 1" by simp
    have b: "int i \<noteq> int (length ds) - 1" using that by arith
    show "dataSource (moveData Down s) = ds[i := ds ! (i + 1), i + 1 := ds ! i]"
         "editingKey (moveData Down s) = editingKey s"
      using idx a b by (simp_all add: moveData_def ds_def [symmetric] Let_def)
  qed
  have up_all: "length (dataSource (moveData Up s)) = length ds
          \<and> dataSource (moveData Up s) ! (i - 1) = ds ! i
          \<and> dataSource (moveData Up s) ! i = ds ! (i - 1)
          \<and> (\<forall>k < length ds. k \<noteq> i \<and> k \<noteq> i - 1 \<longrightarrow> dataSource (moveData Up s) ! k = ds ! k)
          \<and> editingKey (moveData Up s) = editingKey s" if "0 < i"
    using up [OF that] il that by (simp add: nth_list_update)
  have down_all: "length (dataSource (moveData Down s)) = length ds
          \<and> dataSource (moveData Down s) ! (i + 1) = ds ! i
          \<and> dataSource (moveData Down s) ! i = ds ! (i + 1)
          \<and> (\<forall>k < length ds. k \<noteq> i \<and> k \<noteq> i + 1 \<longrightarrow> dataSource (moveData Down s) ! k = ds ! k)
          \<and> editingKey (moveData Down s) = editingKey s" if "i < length ds - 1"
    using down [OF that] il that by (simp add: nth_list_update)
  from up0 down_last up_all down_all show ?thesis unfolding ds_def by blast
qed

theorem move_swaps_with_neighbour_witness:
  "map key (dataSource (moveData Up three_rows)) = [''b'', ''a'', ''c'']
   \<and> map key (dataSource (moveData Down three_rows)) = [''a'', ''c'', ''b'']
   \<and> moveData Up (three_rows\<lparr>editingKey := ''a''\<rparr>) = three_rows\<lparr>editingKey := ''a''\<rparr>
   \<and> moveData Down (three_rows\<lparr>editingKey := ''c''\<rparr>) = three_rows\<lparr>editingKey := ''c''\<rparr>"
proof -
  have h1: "1 < length (dataSource three_rows)" by simp
  have h2: "key (dataSource three_rows ! 1) = editingKey three_rows"
    by (simp add: createInitialData_def)
  have h3: "\<forall>k < length (dataSource three_rows).
              key (dataSource three_rows ! k) = editingKey three_rows \<longrightarrow> k = 1"
    by (auto simp: less_Suc_eq createInitialData_def)
  from move_swaps_with_neighbour [OF h1 h2 h3]
  show ?thesis
    by (simp add: moveData_def createInitialData_def Let_def)
qed

subsection \<open>Delete\<close>

text \<open>
  C4: when the keys are pairwise distinct and the row at index \<open>i\<close> has
  the edit key, delete yields the list without that row: the rows before it
  followed by the rows after it.
\<close>

theorem delete_removes_edited_row:
  assumes "distinct (map key (dataSource s))"
      and "i < length (dataSource s)" "key (dataSource s ! i) = editingKey s"
  shows "dataSource (deleteData s) = take i (dataSource s) @ drop (Suc i) (dataSource s)
       \<and> length (dataSource (deleteData s)) = length (dataSource s) - 1
       \<and> editingKey (deleteData s) = editingKey s"
proof -
  define ds where "ds = dataSource s"
  define e where "e = editingKey s"
  have il: "i < length ds" and ki: "key (ds ! i) = e" and d: "distinct (map key ds)"
    using assms by (simp_all add: ds_def e_def)
  have other: "key (ds ! k) \<noteq> e" if "k < length ds" "k \<noteq> i" for k
  proof
    assume "key (ds ! k) = e"
    then have "map key ds ! k = map key ds ! i" using that il ki by simp
    moreover have "k < length (map key ds)" "i < length (map key ds)" using that il by simp_all
    ultimately have "k = i" using d nth_eq_iff_index_eq by blast
    with that show False by simp
  qed
  have split: "ds = take i ds @ ds ! i # drop (Suc i) ds"
    using il by (simp add: id_take_nth_drop)
  have a: "filter (\<lambda>r. key r \<noteq> e) (take i ds) = take i ds"
  proof -
    have "\<forall>r \<in> set (take i ds). key r \<noteq> e"
    proof
      fix r assume "r \<in> set (take i ds)"
      then obtain k where "k < length (take i ds)" "take i ds ! k = r"
        by (auto simp: in_set_conv_nth)
      then have "k < length ds" "k \<noteq> i" "ds ! k = r" using il by simp_all
      with other show "key r \<noteq> e" by blast
    qed
    then show ?thesis by (simp add: filter_id_conv)
  qed
  have b: "filter (\<lambda>r. key r \<noteq> e) (drop (Suc i) ds) = drop (Suc i) ds"
  proof -
    have "\<forall>r \<in> set (drop (Suc i) ds). key r \<noteq> e"
    proof
      fix r assume "r \<in> set (drop (Suc i) ds)"
      then obtain k where k: "k < length (drop (Suc i) ds)" "drop (Suc i) ds ! k = r"
        by (auto simp: in_set_conv_nth)
      then have "Suc i + k < length ds" "Suc i + k \<noteq> i" "ds ! (Suc i + k) = r" by simp_all
      with other show "key r \<noteq> e" by blast
    qed
    then show ?thesis by (simp add: filter_id_conv)
  qed
  have "filter (\<lambda>r. key r \<noteq> e) ds =
          filter (\<lambda>r. key r \<noteq> e) (take i ds @ ds ! i # drop (Suc i) ds)"
    using split by simp
  also have "\<dots> = take i ds @ drop (Suc i) ds"
    using a b ki by simp
  finally have f: "filter (\<lambda>r. key r \<noteq> e) ds = take i ds @ drop (Suc i) ds" .
  then have "dataSource (deleteData s) = take i ds @ drop (Suc i) ds"
    by (simp add: deleteData_def ds_def e_def)
  moreover have "length (take i ds @ drop (Suc i) ds) = length ds - 1"
    using il by simp
  moreover have "editingKey (deleteData s) = editingKey s"
    by (simp add: deleteData_def)
  ultimately show ?thesis unfolding ds_def by simp
qed

theorem delete_removes_edited_row_witness:
  "dataSource (deleteData three_rows) = [createInitialData ''a'', createInitialData ''c'']
   \<and> editingKey (deleteData three_rows) = ''b''"
proof -
  have h1: "distinct (map key (dataSource three_rows))" by (simp add: createInitialData_def)
  have h2: "1 < length (dataSource three_rows)" by simp
  have h3: "key (dataSource three_rows ! 1) = editingKey three_rows"
    by (simp add: createInitialData_def)
  from delete_removes_edited_row [OF h1 h2 h3] show ?thesis by simp
qed

subsection \<open>Add\<close>

text \<open>
  C5: add yields the old list followed by one new row whose key is the
  generated identifier and whose column fields are all null, and sets the edit
  key to that identifier, so the new row is in edit mode; when the identifier
  is fresh, it is the only row in edit mode.
\<close>

theorem add_appends_blank_row_in_edit_mode:
  "dataSource (addData uuid s) = dataSource s @ [createInitialData uuid]
   \<and> createInitialData uuid =
       \<lparr> key = uuid, name = JNull, columnSize = JNull, columnType = JNull,
         nullable = JNull, comment = JNull, primaryKey = JNull, defaultValue = JNull,
         dataType = JNull, autoIncrement = JNull, numericPrecision = JNull,
         numericScale = JNull, characterMaximumLength = JNull \<rparr>
   \<and> editingKey (addData uuid s) = uuid
   \<and> isEditing (addData uuid s) (last (dataSource (addData uuid s)))
   \<and> (uuid \<notin> set (map key (dataSource s)) \<longrightarrow>
        filter (isEditing (addData uuid s)) (dataSource (addData uuid s)) = [createInitialData uuid])
   \<and> databaseFieldTypeList (addData uuid s) = databaseFieldTypeList s"
proof -
  have ie: "isEditing st = (\<lambda>r. key r = editingKey st)" for st
    by (simp add: fun_eq_iff isEditing_def)
  have "filter (\<lambda>r. key r = uuid) (dataSource s) = []"
    if "uuid \<notin> set (map key (dataSource s))"
    using that by (auto simp: filter_empty_conv)
  then show ?thesis
    by (simp add: addData_def edit_def ie Let_def createInitialData_def)
qed

theorem add_appends_blank_row_in_edit_mode_witness:
  "map key (dataSource (addData ''d'' three_rows)) = [''a'', ''b'', ''c'', ''d'']
   \<and> editingKey (addData ''d'' three_rows) = ''d''
   \<and> ''d'' \<notin> set (map key (dataSource three_rows))
   \<and> filter (isEditing (addData ''d'' three_rows)) (dataSource (addData ''d'' three_rows))
       = [createInitialData ''d'']"
  using add_appends_blank_row_in_edit_mode [of "''d''" three_rows]
  by (simp add: createInitialData_def addData_def edit_def)

subsection \<open>Reload\<close>

text \<open>
  C6: when table details with a column list arrive, the column sequence
  becomes a list of the same length whose rows agree with the source records,
  in order, on every field but the key, and whose keys are the generated
  identifiers; table details without a column list make it the empty list.
\<close>

theorem reload_copies_columns:
  "(columnList td = Some cols \<longrightarrow>
      length (dataSource (onTableDetails uuids (Some td) s)) = length cols
    \<and> map (\<lambda>r. r\<lparr>key := []\<rparr>) (dataSource (onTableDetails uuids (Some td) s))
        = map (\<lambda>t. t\<lparr>key := []\<rparr>) cols
    \<and> map key (dataSource (onTableDetails uuids (Some td) s)) = map uuids [0..<length cols])
   \<and> (columnList td = None \<longrightarrow> dataSource (onTableDetails uuids (Some td) s) = [])
   \<and> editingKey (onTableDetails uuids (Some td) s) = editingKey s
   \<and> databaseFieldTypeList (onTableDetails uuids (Some td) s) = databaseFieldTypeList s"
  using key_tag_from [of uuids 0]
  by (simp add: onTableDetails_def length_tag_from fields_tag_from split: option.splits)

theorem reload_copies_columns_witness:
  "dataSource (onTableDetails (\<lambda>i. replicate (Suc i) CHR ''u'')
        (Some \<lparr>columnList = Some [createInitialData ''x''\<lparr>name := JStr ''id''\<rparr>,
                                  createInitialData ''y''\<lparr>name := JStr ''title''\<rparr>]\<rparr>)
        three_rows)
     = [createInitialData ''u''\<lparr>name := JStr ''id''\<rparr>,
        createInitialData ''uu''\<lparr>name := JStr ''title''\<rparr>]
   \<and> dataSource (onTableDetails (\<lambda>i. replicate (Suc i) CHR ''u'')
        (Some \<lparr>columnList = None\<rparr>) three_rows) = []"
  using reload_copies_columns [of "\<lparr>columnList = Some [createInitialData ''x''\<lparr>name := JStr ''id''\<rparr>,
                                  createInitialData ''y''\<lparr>name := JStr ''title''\<rparr>]\<rparr>"
          "[createInitialData ''x''\<lparr>name := JStr ''id''\<rparr>,
                                  createInitialData ''y''\<lparr>name := JStr ''title''\<rparr>]"
          "\<lambda>i. replicate (Suc i) CHR ''u''" three_rows]
        reload_copies_columns [of "\<lparr>columnList = None\<rparr>" "[]" "\<lambda>i. replicate (Suc i) CHR ''u''" three_rows]
  by (simp add: onTableDetails_def createInitialData_def)

subsection \<open>Distinct keys\<close>

text \<open>
  C7: the keys of the initial state are pairwise distinct, and from a state
  with pairwise distinct keys every operation leads to one: the reload when its
  generated identifiers differ from each other, add when its identifier is not
  a key of the list, and delete, move, drag, field edit, entering edit mode and
  the arrival of the type list without a condition. A drag on a non-empty
  list always has a result.
\<close>

theorem operations_keep_keys_distinct:
  assumes "distinct (map key (dataSource s))"
  shows "distinct (map key (dataSource (initial_state uuid0)))
       \<and> ((\<forall>td cols. tableDetails = Some td \<and> columnList td = Some cols
               \<longrightarrow> inj_on uuids {..<length cols})
            \<longrightarrow> distinct (map key (dataSource (onTableDetails uuids tableDetails s))))
       \<and> (uuid \<notin> set (map key (dataSource s))
            \<longrightarrow> distinct (map key (dataSource (addData uuid s))))
       \<and> distinct (map key (dataSource (deleteData s)))
       \<and> distinct (map key (dataSource (moveData action s)))
       \<and> (\<forall>s'. onDragEnd ev s = Some s' \<longrightarrow> distinct (map key (dataSource s')))
       \<and> (dataSource s \<noteq> [] \<longrightarrow> onDragEnd ev s \<noteq> None)
       \<and> distinct (map key (dataSource (handelFieldsChange nm v s)))
       \<and> distinct (map key (dataSource (edit r s)))
       \<and> distinct (map key (dataSource (onFieldTypeListSettled p s)))"
proof -
  have init: "distinct (map key (dataSource (initial_state uuid0)))"
    by (simp add: initial_state_def)
  have reload: "distinct (map key (dataSource (onTableDetails uuids tableDetails s)))"
    if f: "\<forall>td cols. tableDetails = Some td \<and> columnList td = Some cols
               \<longrightarrow> inj_on uuids {..<length cols}"
  proof (cases tableDetails)
    case None
    then show ?thesis using assms by (simp add: onTableDetails_def)
  next
    case (Some td)
    show ?thesis
    proof (cases "columnList td")
      case None
      with Some show ?thesis by (simp add: onTableDetails_keys)
    next
      case (Some cols)
      with f \<open>tableDetails = Some td\<close> have "inj_on uuids {..<length cols}" by blast
      then have "distinct (map uuids [0..<length cols])"
        by (simp add: distinct_map atLeast0LessThan)
      with Some \<open>tableDetails = Some td\<close> show ?thesis by (simp add: onTableDetails_keys)
    qed
  qed
  have add: "distinct (map key (dataSource (addData uuid s)))"
    if "uuid \<notin> set (map key (dataSource s))"
    using that assms by (simp add: addData_def edit_def createInitialData_def Let_def)
  have del: "distinct (map key (dataSource (deleteData s)))"
    using assms by (simp add: deleteData_def distinct_map_filter)
  have mv: "distinct (map key (dataSource (moveData action s)))"
    using moveData_mset assms by (rule distinct_keys_mset)
  have drag: "distinct (map key (dataSource s'))" if "onDragEnd ev s = Some s'" for s'
    using onDragEnd_mset [OF that] assms by (rule distinct_keys_mset)
  have total: "onDragEnd ev s \<noteq> None" if "dataSource s \<noteq> []"
    using that by (simp add: onDragEnd_None)
  have chg: "distinct (map key (dataSource (handelFieldsChange nm v s)))"
    using assms by (simp add: handelFieldsChange_keys)
  have ed: "distinct (map key (dataSource (edit r s)))"
    using assms by (simp add: edit_def)
  have ft: "distinct (map key (dataSource (onFieldTypeListSettled p s)))"
    using assms by (cases p) (simp_all add: onFieldTypeListSettled_def)
  from init reload add del mv drag total chg ed ft show ?thesis by blast
qed

theorem operations_keep_keys_distinct_witness:
  "distinct (map key (dataSource three_rows))
   \<and> inj_on (\<lambda>i. replicate (Suc i) CHR ''u'') {..<length [createInitialData ''x'', createInitialData ''y'']}
   \<and> distinct (map key (dataSource (onTableDetails (\<lambda>i. replicate (Suc i) CHR ''u'')
        (Some \<lparr>columnList = Some [createInitialData ''x'', createInitialData ''y'']\<rparr>) three_rows)))
   \<and> ''d'' \<notin> set (map key (dataSource three_rows))
   \<and> distinct (map key (dataSource (addData ''d'' three_rows)))
   \<and> distinct (map key (dataSource (deleteData three_rows)))
   \<and> distinct (map key (dataSource (moveData Up three_rows)))
   \<and> (\<exists>s'. onDragEnd \<lparr>active = ''a'', over = Some ''c''\<rparr> three_rows = Some s'
          \<and> distinct (map key (dataSource s')))
   \<and> distinct (map key (dataSource (handelFieldsChange FNullable (JBool True) three_rows)))"
proof -
  let ?u = "\<lambda>i. replicate (Suc i) CHR ''u''"
  let ?td = "Some \<lparr>columnList = Some [createInitialData ''x'', createInitialData ''y'']\<rparr>"
  let ?ev = "\<lparr>active = ''a'', over = Some ''c''\<rparr>"
  have h: "distinct (map key (dataSource three_rows))"
    by (simp add: createInitialData_def)
  have inj: "inj_on ?u {..<length [createInitialData ''x'', createInitialData ''y'']}"
    by (auto simp: inj_on_def)
  have fresh: "''d'' \<notin> set (map key (dataSource three_rows))"
    by (simp add: createInitialData_def)
  note t = operations_keep_keys_distinct
             [OF h, of _ ?td ?u "''d''" Up ?ev FNullable "JBool True" _
                "Rejected JNull :: (jsval, field_type list) settled"]
  from t inj have r: "distinct (map key (dataSource (onTableDetails ?u ?td three_rows)))"
    by simp
  from t fresh have a: "distinct (map key (dataSource (addData ''d'' three_rows)))"
    by blast
  from t have d: "distinct (map key (dataSource (deleteData three_rows)))"
    and m: "distinct (map key (dataSource (moveData Up three_rows)))"
    and c: "distinct (map key (dataSource (handelFieldsChange FNullable (JBool True) three_rows)))"
    by blast+
  from t have "onDragEnd ?ev three_rows \<noteq> None" by simp
  then obtain s' where s': "onDragEnd ?ev three_rows = Some s'" by blast
  with t have "distinct (map key (dataSource s'))" by blast
  with s' have g: "\<exists>s'. onDragEnd ?ev three_rows = Some s' \<and> distinct (map key (dataSource s'))"
    by blast
  from h inj r fresh a d m g c show ?thesis by blast
qed

subsection \<open>The panel toggle\<close>

text \<open>
  C8: in every state of the two panel flags, a click on the left (right) icon
  negates the left (right) flag and leaves the other flag as it was.
\<close>

theorem toggle_flips_only_its_panel:
  "panelLeft (onClick LeftIcon l) = (\<not> panelLeft l)
   \<and> panelRight (onClick LeftIcon l) = panelRight l
   \<and> panelRight (onClick RightIcon l) = (\<not> panelRight l)
   \<and> panelLeft (onClick RightIcon l) = panelLeft l"
  by (simp add: togglePanelLeft_def togglePanelRight_def)

theorem toggle_flips_only_its_panel_witness:
  "onClick LeftIcon \<lparr>panelLeft = True, panelRight = True\<rparr> = \<lparr>panelLeft = False, panelRight = True\<rparr>
   \<and> onClick RightIcon \<lparr>panelLeft = True, panelRight = True\<rparr> = \<lparr>panelLeft = True, panelRight = False\<rparr>"
  using toggle_flips_only_its_panel [of "\<lparr>panelLeft = True, panelRight = True\<rparr>"]
  by (simp add: togglePanelLeft_def togglePanelRight_def)

subsection \<open>The field-type list\<close>




subsection \<open>No row in edit mode\<close>

text \<open>
  C10: when no row's key equals the edit key, delete, move-up and move-down
  each leave the column list (the whole state, in fact) unchanged.
\<close>

theorem no_editing_row_no_change:
  assumes "\<forall>r \<in> set (dataSource s). key r \<noteq> editingKey s"
  shows "deleteData s = s \<and> moveData Up s = s \<and> moveData Down s = s"
proof -
  have "filter (\<lambda>i. key i \<noteq> editingKey s) (dataSource s) = dataSource s"
    using assms by (simp add: filter_id_conv)
  then have d: "deleteData s = s" by (simp add: deleteData_def)
  have "findIndex (\<lambda>i. key i = editingKey s) (dataSource s) = - 1"
    using assms by (simp add: findIndex_none)
  then have "moveData a s = s" for a by (simp add: moveData_def)
  with d show ?thesis by simp
qed

theorem no_editing_row_no_change_witness:
  "editingKey (initial_state ''u1'') = []
   \<and> map key (dataSource (initial_state ''u1'')) = [''u1'']
   \<and> deleteData (initial_state ''u1'') = initial_state ''u1''
   \<and> moveData Up (initial_state ''u1'') = initial_state ''u1''
   \<and> moveData Down (initial_state ''u1'') = initial_state ''u1''"
  using no_editing_row_no_change [of "initial_state ''u1''"]
  by (simp add: initial_state_def createInitialData_def)

end
